theory Spec2Isabelle
  imports Complex_Main
begin

section \<open>Python and numpy conventions used by the model\<close>

text \<open>
  The development embeds the classes \<open>TopologicalPhaseUnionFind\<close> and \<open>Simulation\<close> of
  the Celestial Unification Framework (versions 7.0 and 8.0).  Python integers are
  unbounded and are modelled by \<open>int\<close>; numpy floats are modelled by \<open>real\<close>, so
  rounding is not part of the model.  An exception is a value of type \<open>error\<close>.
\<close>

datatype error = IndexError | ValueError | ZeroDivisionError | KeyError | RecursionError | NaN

text \<open>
  numpy indexing of a one-dimensional array of length \<open>n\<close>: an index in \<open>[0, n)\<close> is
  used as it is, an index in \<open>[-n, 0)\<close> counts from the end, and every other index
  raises \<open>IndexError\<close>.
\<close>

definition np_index :: "nat \<Rightarrow> int \<Rightarrow> nat option" where
  "np_index n i =
     (if 0 \<le> i \<and> i < int n then Some (nat i)
      else if - int n \<le> i \<and> i < 0 then Some (nat (i + int n))
      else None)"

definition np_get :: "'a list \<Rightarrow> int \<Rightarrow> error + 'a" where
  "np_get xs i = (case np_index (length xs) i of None \<Rightarrow> Inl IndexError | Some k \<Rightarrow> Inr (xs ! k))"

definition np_set :: "'a list \<Rightarrow> int \<Rightarrow> 'a \<Rightarrow> error + 'a list" where
  "np_set xs i v = (case np_index (length xs) i of None \<Rightarrow> Inl IndexError | Some k \<Rightarrow> Inr (xs[k := v]))"

section \<open>TopologicalPhaseUnionFind\<close>

record uf =
  parent :: "int list"
  z2_charge :: "int list"
  z4_charge :: "int list"

text \<open>\<open>__init__(n)\<close>: \<open>parent = arange(n)\<close>, both charge arrays zero.\<close>

definition uf_init :: "nat \<Rightarrow> uf" where
  "uf_init n = \<lparr>parent = map int [0..<n], z2_charge = replicate n 0, z4_charge = replicate n 0\<rparr>"

text \<open>
  \<open>find(i)\<close>.  The source recurses once per node on the way from \<open>i\<close> to its root, and
  CPython stops a recursion with \<open>RecursionError\<close> when the call stack has reached the
  recursion limit, 1000 frames unless it is raised, which the source never does.  The
  first argument \<open>d\<close> is the number of frames the interpreter still allows when \<open>find\<close>
  is called, the limit less the frames already on the stack: with none left the call
  itself raises.  The result is \<open>Inl e\<close> when the exception \<open>e\<close> leaves the call and
  \<open>Inr (r, s')\<close> when \<open>r\<close> is returned in the state \<open>s'\<close>.  Every assignment of \<open>find\<close> is
  executed after its recursive call has returned, so an exception leaves the arrays as
  they were on entry.
\<close>

fun find_uf :: "nat \<Rightarrow> uf \<Rightarrow> int \<Rightarrow> error + int \<times> uf" where
  "find_uf 0 s i = Inl RecursionError"
| "find_uf (Suc d) s i =
     (case np_get (parent s) i of
        Inl e \<Rightarrow> Inl e
      | Inr p \<Rightarrow>
          if p = i then Inr (i, s)
          else
            (case find_uf d s p of
               Inl e \<Rightarrow> Inl e
             | Inr (r, s') \<Rightarrow>
                 (case np_set (parent s') i r of
                    Inl e \<Rightarrow> Inl e
                  | Inr ps \<Rightarrow>
                      (case np_get ps i of
                         Inl e \<Rightarrow> Inl e
                       | Inr v \<Rightarrow> Inr (v, s'\<lparr>parent := ps\<rparr>)))))"

text \<open>
  The body of the \<open>if root_i != root_j\<close> branch of \<open>union\<close>, statement by statement.
  The state is returned beside the outcome, since an exception keeps the assignments
  already made.
\<close>

definition merge :: "uf \<Rightarrow> int \<Rightarrow> int \<Rightarrow> (error + bool) \<times> uf" where
  "merge s root_i root_j =
     (case np_set (parent s) root_j root_i of
        Inl e \<Rightarrow> (Inl e, s)
      | Inr ps \<Rightarrow>
          let s1 = s\<lparr>parent := ps\<rparr> in
          (case np_get (z2_charge s1) root_i of
             Inl e \<Rightarrow> (Inl e, s1)
           | Inr a \<Rightarrow>
          (case np_get (z2_charge s1) root_j of
             Inl e \<Rightarrow> (Inl e, s1)
           | Inr b \<Rightarrow>
          (case np_set (z2_charge s1) root_i ((a + b) mod 2) of
             Inl e \<Rightarrow> (Inl e, s1)
           | Inr z2 \<Rightarrow>
          let s2 = s1\<lparr>z2_charge := z2\<rparr> in
          (case np_get (z4_charge s2) root_i of
             Inl e \<Rightarrow> (Inl e, s2)
           | Inr c \<Rightarrow>
          (case np_get (z4_charge s2) root_j of
             Inl e \<Rightarrow> (Inl e, s2)
           | Inr d \<Rightarrow>
          (case np_set (z4_charge s2) root_i ((c + d) mod 4) of
             Inl e \<Rightarrow> (Inl e, s2)
           | Inr z4 \<Rightarrow> (Inr True, s2\<lparr>z4_charge := z4\<rparr>))))))))"

text \<open>
  \<open>union(i, j)\<close>, called when the interpreter still allows \<open>d\<close> frames below it.
\<close>

definition union_uf :: "nat \<Rightarrow> uf \<Rightarrow> int \<Rightarrow> int \<Rightarrow> (error + bool) \<times> uf" where
  "union_uf d s i j =
     (case find_uf d s i of
        Inl e \<Rightarrow> (Inl e, s)
      | Inr (root_i, s1) \<Rightarrow>
          (case find_uf d s1 j of
             Inl e \<Rightarrow> (Inl e, s1)
           | Inr (root_j, s2) \<Rightarrow>
               if root_i \<noteq> root_j then merge s2 root_i root_j
               else (Inr False, s2)))"

text \<open>
  \<open>add_node(rng)\<close> (version 7.0): the two draws \<open>rng.integers(0, 2)\<close> and
  \<open>rng.integers(0, 4)\<close> are the arguments \<open>a\<close> and \<open>b\<close>.
\<close>

definition add_node :: "uf \<Rightarrow> int \<Rightarrow> int \<Rightarrow> uf" where
  "add_node s a b =
     (let new_idx = int (length (parent s)) in
      s\<lparr>parent := parent s @ [new_idx], z2_charge := z2_charge s @ [a], z4_charge := z4_charge s @ [b]\<rparr>)"

text \<open>
  A sequence of \<open>union\<close> calls, each \<open>(d, i, j)\<close> with the frames \<open>d\<close> left at that
  call.  A caller may catch an exception and go on, so the run continues from the state
  the failed call left.
\<close>

fun unions :: "uf \<Rightarrow> (nat \<times> int \<times> int) list \<Rightarrow> uf" where
  "unions s [] = s"
| "unions s ((d, i, j) # ops) = unions (snd (union_uf d s i j)) ops"


text \<open>
  The current representatives are the indices that are their own parent; \<open>charge_sum\<close>
  adds a charge array over them.
\<close>

definition roots :: "int list \<Rightarrow> nat list" where
  "roots p = filter (\<lambda>k. p ! k = int k) [0..<length p]"

definition charge_sum :: "int list \<Rightarrow> int list \<Rightarrow> int" where
  "charge_sum cs p = sum_list (map (\<lambda>k. cs ! k) (roots p))"

text \<open>
  A state of singletons: every node is its own parent and carries one charge of each
  kind.  These are the states that \<open>__init__\<close> followed by any number of \<open>add_node\<close>
  calls builds.
\<close>

definition singletons :: "uf \<Rightarrow> bool" where
  "singletons s \<longleftrightarrow>
     parent s = map int [0..<length (parent s)] \<and>
     length (z2_charge s) = length (parent s) \<and>
     length (z4_charge s) = length (parent s)"

text \<open>
  \<open>is_rep p k r\<close>: following the parent pointers of \<open>p\<close> from node \<open>k\<close> ends in the
  root \<open>r\<close>.  The invariant \<open>uf_inv\<close> says that this walk ends for every node, and that
  the three arrays have one length.
\<close>

inductive is_rep :: "int list \<Rightarrow> nat \<Rightarrow> nat \<Rightarrow> bool" for p where
  root: "k < length p \<Longrightarrow> p ! k = int k \<Longrightarrow> is_rep p k k"
| step: "k < length p \<Longrightarrow> p ! k \<noteq> int k \<Longrightarrow> p ! k = int k' \<Longrightarrow> is_rep p k' r \<Longrightarrow> is_rep p k r"

text \<open>
  \<open>is_rep_n p k r m\<close> counts the walk: it visits \<open>m\<close> nodes, which is the number of
  frames \<open>find(k)\<close> needs.
\<close>

inductive is_rep_n :: "int list \<Rightarrow> nat \<Rightarrow> nat \<Rightarrow> nat \<Rightarrow> bool" for p where
  root_n: "k < length p \<Longrightarrow> p ! k = int k \<Longrightarrow> is_rep_n p k k 1"
| step_n: "k < length p \<Longrightarrow> p ! k \<noteq> int k \<Longrightarrow> p ! k = int k' \<Longrightarrow> is_rep_n p k' r m \<Longrightarrow>
           is_rep_n p k r (Suc m)"

definition uf_inv :: "uf \<Rightarrow> bool" where
  "uf_inv s \<longleftrightarrow>
     length (z2_charge s) = length (parent s) \<and>
     length (z4_charge s) = length (parent s) \<and>
     (\<forall>k < length (parent s). \<exists>r. is_rep (parent s) k r)"

text \<open>
  What a successful \<open>find\<close> leaves behind: an array \<open>ps\<close> of the same length in
  which every walk ends where it ended in \<open>p\<close>, with the same roots.
\<close>

definition compressed :: "int list \<Rightarrow> int list \<Rightarrow> bool" where
  "compressed p ps \<longleftrightarrow>
     length ps = length p \<and>
     (\<forall>x y. is_rep p x y \<longrightarrow> is_rep ps x y) \<and>
     (\<forall>x < length p. ps ! x = int x \<longleftrightarrow> p ! x = int x)"

text \<open>
  The state a merging \<open>union\<close> leaves, given the two roots and the parent array after
  the two \<open>find\<close> calls.
\<close>

definition linked :: "uf \<Rightarrow> int list \<Rightarrow> nat \<Rightarrow> nat \<Rightarrow> uf" where
  "linked s ps ri rj =
     s\<lparr>parent := ps[rj := int ri],
        z2_charge := (z2_charge s)[ri := (z2_charge s ! ri + z2_charge s ! rj) mod 2],
        z4_charge := (z4_charge s)[ri := (z4_charge s ! ri + z4_charge s ! rj) mod 4]\<rparr>"

section \<open>Properties of the union-find structure\<close>


lemma np_index_nat [simp]: "np_index n (int k) = (if k < n then Some k else None)"
  by (simp add: np_index_def)

lemma np_index_SomeD: "np_index n i = Some k \<Longrightarrow> k < n \<and> (i = int k \<or> i = int k - int n)"
  by (auto simp: np_index_def split: if_splits)


lemma is_rep_bounds: "is_rep p k r \<Longrightarrow> k < length p \<and> r < length p \<and> p ! r = int r"
  by (induction rule: is_rep.induct) auto

lemma is_rep_det: "is_rep p k r \<Longrightarrow> is_rep p k r' \<Longrightarrow> r = r'"
proof (induction arbitrary: r' rule: is_rep.induct)
  case (root k)
  then show ?case by (auto elim: is_rep.cases)
next
  case (step k k' r)
  from step.prems show ?case
  proof (cases rule: is_rep.cases)
    case root
    with step.hyps show ?thesis by simp
  next
    case (step k'')
    with step.hyps step.IH show ?thesis by simp
  qed
qed

lemma is_rep_parent:
  assumes "is_rep p k r"
  shows "\<exists>k'. p ! k = int k' \<and> is_rep p k' r"
  using assms by (cases rule: is_rep.cases) (auto intro: is_rep.root)

lemma is_rep_compress:
  assumes kr: "is_rep p k r" and xy: "is_rep p x y"
  shows "is_rep (p[k := int r]) x y"
  using xy
proof (induction rule: is_rep.induct)
  case (root x)
  show ?case
  proof (cases "x = k")
    case True
    have "is_rep p x x" using root by (rule is_rep.root)
    with kr True have "r = x" using is_rep_det by blast
    then show ?thesis using root True by (auto intro: is_rep.root)
  next
    case False
    then show ?thesis using root by (auto intro: is_rep.root)
  qed
next
  case (step x x' y)
  show ?case
  proof (cases "x = k")
    case True
    have "is_rep p x y" using step.hyps by (auto intro: is_rep.step)
    with kr True have y: "y = r" using is_rep_det by blast
    have rb: "r < length p" "p ! r = int r" using is_rep_bounds [OF kr] by auto
    have ne: "r \<noteq> k" using rb step.hyps True by auto
    have "is_rep (p[k := int r]) r r" using rb ne by (auto intro: is_rep.root)
    then show ?thesis using True step.hyps ne y by (auto intro: is_rep.step)
  next
    case False
    then show ?thesis using step by (auto intro: is_rep.step)
  qed
qed

lemma is_rep_link:
  assumes xy: "is_rep p x y"
    and ri: "ri < length p" "p ! ri = int ri"
    and rj: "rj < length p" "p ! rj = int rj"
    and ne: "ri \<noteq> rj"
  shows "is_rep (p[rj := int ri]) x (if y = rj then ri else y)"
  using xy
proof (induction rule: is_rep.induct)
  case (root x)
  have riri: "is_rep (p[rj := int ri]) ri ri" using ri ne by (auto intro: is_rep.root)
  show ?case
  proof (cases "x = rj")
    case True
    then show ?thesis using riri rj ne by (auto intro: is_rep.step)
  next
    case False
    then show ?thesis using root by (auto intro: is_rep.root)
  qed
next
  case (step x x' y)
  have "x \<noteq> rj" using step.hyps rj by auto
  then show ?case using step by (auto intro: is_rep.step)
qed

lemma np_get_nat [simp]: "k < length xs \<Longrightarrow> np_get xs (int k) = Inr (xs ! k)"
  by (simp add: np_get_def)

lemma np_set_nat [simp]: "k < length xs \<Longrightarrow> np_set xs (int k) v = Inr (xs[k := v])"
  by (simp add: np_set_def)

lemma compressed_refl: "compressed p p"
  by (simp add: compressed_def)

lemma compressed_update:
  assumes c: "compressed p ps" and kr: "is_rep p k r" and nr: "p ! k \<noteq> int k"
  shows "compressed p (ps[k := int r])"
proof -
  have kr': "is_rep ps k r" using c kr by (simp add: compressed_def)
  have rb: "p ! r = int r" "k < length p" using is_rep_bounds [OF kr] by auto
  have ne: "r \<noteq> k" using rb nr by auto
  show ?thesis
    unfolding compressed_def
  proof (intro conjI allI impI)
    show "length (ps[k := int r]) = length p" using c by (simp add: compressed_def)
  next
    fix x y assume "is_rep p x y"
    then have "is_rep ps x y" using c by (simp add: compressed_def)
    then show "is_rep (ps[k := int r]) x y" by (rule is_rep_compress [OF kr'])
  next
    fix x assume x: "x < length p"
    show "(ps[k := int r] ! x = int x) = (p ! x = int x)"
    proof (cases "x = k")
      case True
      then show ?thesis using c x nr ne by (simp add: compressed_def)
    next
      case False
      then show ?thesis using c x by (simp add: compressed_def)
    qed
  qed
qed

lemma compressed_trans:
  assumes "compressed p q" "compressed q r"
  shows "compressed p r"
  using assms by (simp add: compressed_def)

lemma compressed_back:
  assumes c: "compressed p ps" and tot: "\<forall>k < length p. \<exists>r. is_rep p k r" and xy: "is_rep ps x y"
  shows "is_rep p x y"
proof -
  have "x < length p" using is_rep_bounds [OF xy] c by (simp add: compressed_def)
  then obtain y' where y': "is_rep p x y'" using tot by blast
  then have "is_rep ps x y'" using c by (simp add: compressed_def)
  then have "y' = y" using xy is_rep_det by blast
  then show ?thesis using y' by simp
qed

lemma uf_inv_compressed:
  assumes "uf_inv s" "compressed (parent s) ps"
  shows "uf_inv (s\<lparr>parent := ps\<rparr>)"
  using assms unfolding uf_inv_def compressed_def by simp blast

lemma roots_compressed:
  assumes "compressed p ps"
  shows "roots ps = roots p"
proof -
  have "length ps = length p" using assms by (simp add: compressed_def)
  moreover have "\<forall>k \<in> set [0..<length p]. (ps ! k = int k) = (p ! k = int k)"
    using assms by (simp add: compressed_def)
  ultimately show ?thesis unfolding roots_def by (metis (mono_tags, lifting) filter_cong)
qed

lemma merge_roots:
  assumes "ri < length (parent s)" "rj < length (parent s)"
    and "length (z2_charge s) = length (parent s)" "length (z4_charge s) = length (parent s)"
  shows "merge s (int ri) (int rj) =
           (Inr True, s\<lparr>parent := (parent s)[rj := int ri],
                         z2_charge := (z2_charge s)[ri := (z2_charge s ! ri + z2_charge s ! rj) mod 2],
                         z4_charge := (z4_charge s)[ri := (z4_charge s ! ri + z4_charge s ! rj) mod 4]\<rparr>)"
  using assms by (simp add: merge_def Let_def)


lemma charge_sum_set: "charge_sum cs p = (\<Sum>k \<in> {k. k < length p \<and> p ! k = int k}. cs ! k)"
proof -
  have d: "distinct (roots p)" by (simp add: roots_def)
  have "set (roots p) = {k. k < length p \<and> p ! k = int k}" by (auto simp: roots_def)
  then show ?thesis unfolding charge_sum_def using sum_list_distinct_conv_sum_set [OF d] by simp
qed

lemma charge_sum_link:
  assumes ri: "ri < length p" "p ! ri = int ri"
    and rj: "rj < length p" "p ! rj = int rj"
    and ne: "ri \<noteq> rj" and len: "length cs = length p"
  shows "charge_sum (cs[ri := (cs ! ri + cs ! rj) mod m]) (p[rj := int ri]) mod m = charge_sum cs p mod m"
proof -
  let ?R = "{k. k < length p \<and> p ! k = int k}"
  let ?cs = "cs[ri := (cs ! ri + cs ! rj) mod m]"
  have fin: "finite ?R" by simp
  have R': "{k. k < length (p[rj := int ri]) \<and> p[rj := int ri] ! k = int k} = ?R - {rj}"
    using ne rj by (auto simp: nth_list_update)
  have in1: "rj \<in> ?R" using rj by simp
  have in2: "ri \<in> ?R - {rj}" using ri ne by simp
  have old: "(\<Sum>k \<in> ?R. cs ! k) = cs ! rj + (cs ! ri + (\<Sum>k \<in> ?R - {rj} - {ri}. cs ! k))"
    using sum.remove [OF fin in1, of "\<lambda>k. cs ! k"] sum.remove [OF _ in2, of "\<lambda>k. cs ! k"] by simp
  have same: "(\<Sum>k \<in> ?R - {rj} - {ri}. ?cs ! k) = (\<Sum>k \<in> ?R - {rj} - {ri}. cs ! k)"
    by (rule sum.cong) auto
  have new: "(\<Sum>k \<in> ?R - {rj}. ?cs ! k) = (cs ! ri + cs ! rj) mod m + (\<Sum>k \<in> ?R - {rj} - {ri}. cs ! k)"
    using sum.remove [OF _ in2, of "\<lambda>k. ?cs ! k"] same ri len by simp
  have "((cs ! ri + cs ! rj) mod m + (\<Sum>k \<in> ?R - {rj} - {ri}. cs ! k)) mod m
      = (cs ! rj + (cs ! ri + (\<Sum>k \<in> ?R - {rj} - {ri}. cs ! k))) mod m"
    by (simp add: mod_add_left_eq ac_simps)
  then show ?thesis unfolding charge_sum_set R' new old .
qed

lemma uf_inv_linked:
  assumes inv: "uf_inv s" and c: "compressed (parent s) ps"
    and ri: "is_rep (parent s) ki ri" and rj: "is_rep (parent s) kj rj" and ne: "ri \<noteq> rj"
  shows "uf_inv (linked s ps ri rj)"
proof -
  have len: "length ps = length (parent s)" using c by (simp add: compressed_def)
  have bi: "ri < length ps" "ps ! ri = int ri"
    using is_rep_bounds [OF ri] c by (auto simp: compressed_def)
  have bj: "rj < length ps" "ps ! rj = int rj"
    using is_rep_bounds [OF rj] c by (auto simp: compressed_def)
  have "\<exists>r. is_rep (ps[rj := int ri]) k r" if k: "k < length (parent s)" for k
  proof -
    obtain y where "is_rep (parent s) k y" using inv k by (auto simp: uf_inv_def)
    then have "is_rep ps k y" using c by (simp add: compressed_def)
    then show ?thesis using is_rep_link [OF _ bi bj ne] by blast
  qed
  then show ?thesis using inv len by (simp add: uf_inv_def linked_def)
qed

lemma charge_sum_linked:
  assumes inv: "uf_inv s" and c: "compressed (parent s) ps"
    and ri: "is_rep (parent s) ki ri" and rj: "is_rep (parent s) kj rj" and ne: "ri \<noteq> rj"
  shows "charge_sum (z2_charge (linked s ps ri rj)) (parent (linked s ps ri rj)) mod 2
           = charge_sum (z2_charge s) (parent s) mod 2"
    and "charge_sum (z4_charge (linked s ps ri rj)) (parent (linked s ps ri rj)) mod 4
           = charge_sum (z4_charge s) (parent s) mod 4"
proof -
  have len: "length ps = length (parent s)" using c by (simp add: compressed_def)
  have bi: "ri < length ps" "ps ! ri = int ri"
    using is_rep_bounds [OF ri] c by (auto simp: compressed_def)
  have bj: "rj < length ps" "ps ! rj = int rj"
    using is_rep_bounds [OF rj] c by (auto simp: compressed_def)
  have l2: "length (z2_charge s) = length ps" and l4: "length (z4_charge s) = length ps"
    using inv len by (auto simp: uf_inv_def)
  have r: "charge_sum cs ps = charge_sum cs (parent s)" for cs
    by (simp add: charge_sum_def roots_compressed [OF c])
  show "charge_sum (z2_charge (linked s ps ri rj)) (parent (linked s ps ri rj)) mod 2
           = charge_sum (z2_charge s) (parent s) mod 2"
    using charge_sum_link [OF bi bj ne l2, of 2] r by (simp add: linked_def)
  show "charge_sum (z4_charge (linked s ps ri rj)) (parent (linked s ps ri rj)) mod 4
           = charge_sum (z4_charge s) (parent s) mod 4"
    using charge_sum_link [OF bi bj ne l4, of 4] r by (simp add: linked_def)
qed

lemma singletons_nth:
  assumes "singletons s" "k < length (parent s)"
  shows "parent s ! k = int k"
proof -
  have "parent s ! k = map int [0..<length (parent s)] ! k" using assms by (simp add: singletons_def)
  then show ?thesis using assms(2) by simp
qed

lemma singletons_inv:
  assumes "singletons s"
  shows "uf_inv s"
proof -
  have "\<exists>r. is_rep (parent s) k r" if "k < length (parent s)" for k
    using that singletons_nth [OF assms] is_rep.root by blast
  then show ?thesis using assms by (simp add: uf_inv_def singletons_def)
qed

lemma singletons_charge_sum:
  assumes "singletons s" "length cs = length (parent s)"
  shows "charge_sum cs (parent s) = sum_list cs"
proof -
  have "filter (\<lambda>k. parent s ! k = int k) [0..<length (parent s)] = [0..<length (parent s)]"
    using singletons_nth [OF assms(1)] by (simp add: filter_id_conv)
  then have "charge_sum cs (parent s) = sum_list (map (\<lambda>k. cs ! k) [0..<length cs])"
    using assms by (simp add: charge_sum_def roots_def)
  then show ?thesis by (simp add: map_nth)
qed


lemma is_rep_n_is_rep: "is_rep_n p k r m \<Longrightarrow> is_rep p k r"
  by (induction rule: is_rep_n.induct) (auto intro: is_rep.intros)

lemma is_rep_has_n: "is_rep p k r \<Longrightarrow> \<exists>m. is_rep_n p k r m"
proof (induction rule: is_rep.induct)
  case (root k)
  then show ?case using is_rep_n.root_n by blast
next
  case (step k k' r)
  then obtain m where "is_rep_n p k' r m" by blast
  then have "is_rep_n p k r (Suc m)" using step.hyps by (intro is_rep_n.step_n)
  then show ?case by blast
qed

lemma is_rep_n_det: "is_rep_n p k r m \<Longrightarrow> is_rep_n p k r' m' \<Longrightarrow> m = m'"
proof (induction arbitrary: r' m' rule: is_rep_n.induct)
  case (root_n k)
  then show ?case by (auto elim: is_rep_n.cases)
next
  case (step_n k k' r m)
  from step_n.prems show ?case
  proof (cases rule: is_rep_n.cases)
    case root_n
    with step_n.hyps show ?thesis by simp
  next
    case (step_n k'' m'')
    with step_n.hyps step_n.IH show ?thesis by simp
  qed
qed

text \<open>A walk never visits a node twice, so it is no longer than the array.\<close>

lemma is_rep_n_visits:
  assumes "is_rep_n p k r m"
  shows "\<exists>V. finite V \<and> V \<subseteq> {..<length p} \<and> card V = m \<and>
             (\<forall>x \<in> V. \<exists>mx r'. mx \<le> m \<and> is_rep_n p x r' mx)"
  using assms
proof (induction rule: is_rep_n.induct)
  case (root_n k)
  have "is_rep_n p k k 1" using root_n by (rule is_rep_n.root_n)
  then have "\<forall>x \<in> {k}. \<exists>mx r'. mx \<le> 1 \<and> is_rep_n p x r' mx" by blast
  then show ?case using root_n by (intro exI [of _ "{k}"]) simp
next
  case (step_n k k' r m)
  then obtain V where V: "finite V" "V \<subseteq> {..<length p}" "card V = m"
    "\<forall>x \<in> V. \<exists>mx r'. mx \<le> m \<and> is_rep_n p x r' mx" by blast
  have kk: "is_rep_n p k r (Suc m)" using step_n.hyps by (auto intro: is_rep_n.step_n)
  have notin: "k \<notin> V"
  proof
    assume "k \<in> V"
    then obtain mx r' where "mx \<le> m" "is_rep_n p k r' mx" using V(4) by blast
    then show False using is_rep_n_det [OF kk] by fastforce
  qed
  have c: "card (insert k V) = Suc m" using V notin by simp
  have a: "\<forall>x \<in> insert k V. \<exists>mx r'. mx \<le> Suc m \<and> is_rep_n p x r' mx"
  proof
    fix x assume "x \<in> insert k V"
    then show "\<exists>mx r'. mx \<le> Suc m \<and> is_rep_n p x r' mx"
    proof
      assume "x = k"
      then show ?thesis using kk by blast
    next
      assume "x \<in> V"
      then obtain mx r' where "mx \<le> m" "is_rep_n p x r' mx" using V(4) by blast
      then show ?thesis using le_SucI by blast
    qed
  qed
  show ?case using V(1,2) step_n.hyps(1) c a by (intro exI [of _ "insert k V"]) simp
qed

lemma is_rep_n_bound:
  assumes "is_rep_n p k r m"
  shows "m \<le> length p"
proof -
  obtain V where "finite V" "V \<subseteq> {..<length p}" "card V = m"
    using is_rep_n_visits [OF assms] by blast
  then show ?thesis using card_mono [of "{..<length p}" V] by simp
qed

lemma find_uf_error:
  assumes "np_index (length (parent s)) i = None"
  shows "find_uf (Suc d) s i = Inl IndexError"
  using assms by (simp add: np_get_def)

lemma find_uf_step:
  assumes idx: "np_index (length (parent s)) i = Some k"
    and par: "parent s ! k = int k'" "int k' \<noteq> i"
    and rec: "find_uf d s (int k') = Inr (int r, s\<lparr>parent := ps\<rparr>)"
    and len: "length ps = length (parent s)"
  shows "find_uf (Suc d) s i = Inr (int r, s\<lparr>parent := ps[k := int r]\<rparr>)"
proof -
  have k: "k < length (parent s)" using np_index_SomeD [OF idx] by simp
  have g: "np_get (parent s) i = Inr (int k')" using idx par by (simp add: np_get_def)
  have st: "np_set ps i (int r) = Inr (ps[k := int r])" using idx len by (simp add: np_set_def)
  have g2: "np_get (ps[k := int r]) i = Inr (int r)" using idx len k by (simp add: np_get_def)
  show ?thesis by (simp add: g par rec st g2)
qed

lemma find_uf_step_error:
  assumes idx: "np_index (length (parent s)) i = Some k"
    and par: "parent s ! k = int k'" "int k' \<noteq> i"
    and rec: "find_uf d s (int k') = Inl e"
  shows "find_uf (Suc d) s i = Inl e"
proof -
  have g: "np_get (parent s) i = Inr (int k')" using idx par by (simp add: np_get_def)
  show ?thesis by (simp add: g par rec)
qed

text \<open>\<open>find\<close> on a walk of \<open>m\<close> nodes returns when \<open>m\<close> frames are left and not with fewer.\<close>

lemma find_uf_frames:
  assumes "is_rep_n p k r m" "p = parent s"
  shows "(m \<le> d \<longrightarrow> (\<exists>ps. find_uf d s (int k) = Inr (int r, s\<lparr>parent := ps\<rparr>) \<and> compressed p ps)) \<and>
         (d < m \<longrightarrow> find_uf d s (int k) = Inl RecursionError)"
  using assms
proof (induction arbitrary: d rule: is_rep_n.induct)
  case (root_n k)
  show ?case
  proof (cases d)
    case 0
    then show ?thesis by simp
  next
    case (Suc d')
    have "find_uf (Suc d') s (int k) = Inr (int k, s\<lparr>parent := p\<rparr>)" using root_n by simp
    then show ?thesis using Suc compressed_refl by auto
  qed
next
  case (step_n k k' r m)
  have kr: "is_rep p k r" using step_n.hyps by (auto intro: is_rep.step dest: is_rep_n_is_rep)
  have idx: "np_index (length (parent s)) (int k) = Some k" using step_n by simp
  have par: "parent s ! k = int k'" "int k' \<noteq> int k" using step_n by auto
  show ?case
  proof (cases d)
    case 0
    then show ?thesis by simp
  next
    case (Suc d')
    show ?thesis
    proof (cases "m \<le> d'")
      case True
      then obtain ps where ps: "find_uf d' s (int k') = Inr (int r, s\<lparr>parent := ps\<rparr>)"
        and c: "compressed p ps" using step_n.IH [OF step_n.prems, of d'] by blast
      have len: "length ps = length (parent s)" using c step_n.prems by (simp add: compressed_def)
      have "find_uf (Suc d') s (int k) = Inr (int r, s\<lparr>parent := ps[k := int r]\<rparr>)"
        by (rule find_uf_step [OF idx par ps len])
      moreover have "compressed p (ps[k := int r])"
        using compressed_update [OF c kr] step_n.hyps by simp
      ultimately show ?thesis using Suc True by auto
    next
      case False
      then have "find_uf d' s (int k') = Inl RecursionError"
        using step_n.IH [OF step_n.prems, of d'] by simp
      then have "find_uf (Suc d') s (int k) = Inl RecursionError"
        by (rule find_uf_step_error [OF idx par])
      then show ?thesis using Suc False by auto
    qed
  qed
qed

text \<open>
  In a well-formed state \<open>find\<close> at an accepted index either returns the representative,
  leaving a compressed parent array, or raises \<open>RecursionError\<close>, which needs an array at
  least as long as the frames left.
\<close>

lemma find_uf_cases:
  assumes inv: "uf_inv s" and idx: "np_index (length (parent s)) i = Some k"
  shows "\<exists>r. is_rep (parent s) k r \<and>
           ((\<exists>ps. find_uf d s i = Inr (int r, s\<lparr>parent := ps\<rparr>) \<and> compressed (parent s) ps) \<or>
            (find_uf d s i = Inl RecursionError \<and> d \<le> length (parent s)))"
proof -
  have k: "k < length (parent s)" using np_index_SomeD [OF idx] by simp
  then obtain r where kr: "is_rep (parent s) k r" using inv by (auto simp: uf_inv_def)
  show ?thesis
  proof (cases "i = int k")
    case True
    obtain m where m: "is_rep_n (parent s) k r m" using is_rep_has_n [OF kr] by blast
    have b: "m \<le> length (parent s)" using is_rep_n_bound [OF m] .
    show ?thesis
    proof (cases "m \<le> d")
      case True
      then show ?thesis using find_uf_frames [OF m refl, of d] kr \<open>i = int k\<close> by blast
    next
      case False
      then have "find_uf d s i = Inl RecursionError \<and> d \<le> length (parent s)"
        using find_uf_frames [OF m refl, of d] b \<open>i = int k\<close> by simp
      then show ?thesis using kr by blast
    qed
  next
    case False
    then have neg: "i < 0" using np_index_SomeD [OF idx] k by auto
    obtain k' where k': "parent s ! k = int k'" "is_rep (parent s) k' r"
      using is_rep_parent [OF kr] by blast
    obtain m where m: "is_rep_n (parent s) k' r m" using is_rep_has_n [OF k'(2)] by blast
    have b: "m \<le> length (parent s)" using is_rep_n_bound [OF m] .
    have ne: "int k' \<noteq> i" using neg by simp
    show ?thesis
    proof (cases d)
      case 0
      then show ?thesis using kr by auto
    next
      case (Suc d')
      show ?thesis
      proof (cases "m \<le> d'")
        case True
        then obtain ps where ps: "find_uf d' s (int k') = Inr (int r, s\<lparr>parent := ps\<rparr>)"
          and c: "compressed (parent s) ps" using find_uf_frames [OF m refl, of d'] by blast
        have len: "length ps = length (parent s)" using c by (simp add: compressed_def)
        have f: "find_uf (Suc d') s i = Inr (int r, s\<lparr>parent := ps[k := int r]\<rparr>)"
          by (rule find_uf_step [OF idx k'(1) ne ps len])
        have "compressed (parent s) (ps[k := int r])"
        proof (cases "parent s ! k = int k")
          case True
          then have "r = k" using kr is_rep_det is_rep.root k by blast
          moreover have "ps ! k = int k" using c True k by (simp add: compressed_def)
          ultimately have "ps[k := int r] = ps" by (metis list_update_id)
          then show ?thesis using c by simp
        next
          case False
          then show ?thesis using compressed_update [OF c kr] by simp
        qed
        then show ?thesis using f kr Suc by blast
      next
        case False
        then have "find_uf d' s (int k') = Inl RecursionError"
          using find_uf_frames [OF m refl, of d'] by simp
        then have "find_uf (Suc d') s i = Inl RecursionError"
          by (rule find_uf_step_error [OF idx k'(1) ne])
        then show ?thesis using kr Suc False b by auto
      qed
    qed
  qed
qed



text \<open>
  Every \<open>union\<close> call in a well-formed state, whatever its arguments and the frames left:
  it raises after at most a path compression, or returns after at most a compression
  (equal roots) or a link (different roots).
\<close>

lemma union_uf_outcome:
  assumes inv: "uf_inv s"
  shows "\<exists>ps. compressed (parent s) ps \<and>
           ((\<exists>e. union_uf d s i j = (Inl e, s\<lparr>parent := ps\<rparr>)) \<or>
            union_uf d s i j = (Inr False, s\<lparr>parent := ps\<rparr>) \<or>
            (\<exists>ki kj ri rj. is_rep (parent s) ki ri \<and> is_rep (parent s) kj rj \<and> ri \<noteq> rj \<and>
               union_uf d s i j = (Inr True, linked s ps ri rj)))"
proof (cases "find_uf d s i")
  case (Inl e)
  then have "union_uf d s i j = (Inl e, s\<lparr>parent := parent s\<rparr>)" by (simp add: union_uf_def)
  then show ?thesis using compressed_refl by blast
next
  case (Inr a)
  have "np_index (length (parent s)) i \<noteq> None"
  proof
    assume n: "np_index (length (parent s)) i = None"
    show False
    proof (cases d)
      case 0
      then show False using Inr by simp
    next
      case (Suc d')
      then show False using Inr find_uf_error [OF n, of d'] by simp
    qed
  qed
  then obtain ki where i: "np_index (length (parent s)) i = Some ki" by auto
  obtain ri ps1 where ri: "is_rep (parent s) ki ri"
    and f1: "find_uf d s i = Inr (int ri, s\<lparr>parent := ps1\<rparr>)"
    and c1: "compressed (parent s) ps1"
    using find_uf_cases [OF inv i, of d] Inr by auto
  let ?s1 = "s\<lparr>parent := ps1\<rparr>"
  have inv1: "uf_inv ?s1" using uf_inv_compressed [OF inv c1] .
  have len1: "length ps1 = length (parent s)" using c1 by (simp add: compressed_def)
  show ?thesis
  proof (cases "find_uf d ?s1 j")
    case (Inl e)
    then have "union_uf d s i j = (Inl e, ?s1)" using f1 by (simp add: union_uf_def)
    then show ?thesis using c1 by blast
  next
    case (Inr b)
    have "np_index (length (parent ?s1)) j \<noteq> None"
    proof
      assume n: "np_index (length (parent ?s1)) j = None"
      show False
      proof (cases d)
        case 0
        then show False using Inr by simp
      next
        case (Suc d')
        then show False using Inr find_uf_error [OF n, of d'] by simp
      qed
    qed
    then obtain kj where j: "np_index (length (parent ?s1)) j = Some kj" by auto
    obtain rj ps2 where rj1: "is_rep (parent ?s1) kj rj"
      and f2: "find_uf d ?s1 j = Inr (int rj, ?s1\<lparr>parent := ps2\<rparr>)"
      and c2: "compressed (parent ?s1) ps2"
      using find_uf_cases [OF inv1 j, of d] Inr by auto
    have tot: "\<forall>k < length (parent s). \<exists>r. is_rep (parent s) k r" using inv by (simp add: uf_inv_def)
    have rj: "is_rep (parent s) kj rj" using compressed_back [OF c1 tot] rj1 by simp
    have c: "compressed (parent s) ps2" using compressed_trans [OF c1] c2 by simp
    have len2: "length ps2 = length (parent s)" using c by (simp add: compressed_def)
    have bd: "ri < length (parent s)" "rj < length (parent s)"
      using is_rep_bounds [OF ri] is_rep_bounds [OF rj] by auto
    have lens: "length (z2_charge s) = length (parent s)" "length (z4_charge s) = length (parent s)"
      using inv by (auto simp: uf_inv_def)
    have m: "merge (s\<lparr>parent := ps2\<rparr>) (int ri) (int rj) = (Inr True, linked s ps2 ri rj)"
      using merge_roots [of ri "s\<lparr>parent := ps2\<rparr>" rj] bd lens len2 by (simp add: linked_def)
    have u: "union_uf d s i j =
          (if ri \<noteq> rj then (Inr True, linked s ps2 ri rj) else (Inr False, s\<lparr>parent := ps2\<rparr>))"
      unfolding union_uf_def using f1 f2 m by simp
    show ?thesis
    proof (cases "ri = rj")
      case True
      then show ?thesis using u c by auto
    next
      case False
      then have "union_uf d s i j = (Inr True, linked s ps2 ri rj)" using u by simp
      then have "\<exists>ki kj ri rj. is_rep (parent s) ki ri \<and> is_rep (parent s) kj rj \<and> ri \<noteq> rj \<and>
               union_uf d s i j = (Inr True, linked s ps2 ri rj)"
        using ri rj False by blast
      then show ?thesis using c by blast
    qed
  qed
qed

text \<open>What every \<open>union\<close> call keeps.\<close>

lemma union_uf_keeps:
  assumes inv: "uf_inv s"
  shows "uf_inv (snd (union_uf d s i j)) \<and>
         length (parent (snd (union_uf d s i j))) = length (parent s) \<and>
         charge_sum (z2_charge (snd (union_uf d s i j))) (parent (snd (union_uf d s i j))) mod 2
           = charge_sum (z2_charge s) (parent s) mod 2 \<and>
         charge_sum (z4_charge (snd (union_uf d s i j))) (parent (snd (union_uf d s i j))) mod 4
           = charge_sum (z4_charge s) (parent s) mod 4"
proof -
  obtain ps where c: "compressed (parent s) ps"
    and o: "(\<exists>e. union_uf d s i j = (Inl e, s\<lparr>parent := ps\<rparr>)) \<or>
            union_uf d s i j = (Inr False, s\<lparr>parent := ps\<rparr>) \<or>
            (\<exists>ki kj ri rj. is_rep (parent s) ki ri \<and> is_rep (parent s) kj rj \<and> ri \<noteq> rj \<and>
               union_uf d s i j = (Inr True, linked s ps ri rj))"
    using union_uf_outcome [OF inv, of d i j] by blast
  have len: "length ps = length (parent s)" using c by (simp add: compressed_def)
  have same: "charge_sum cs ps = charge_sum cs (parent s)" for cs
    by (simp add: charge_sum_def roots_compressed [OF c])
  have plain: ?thesis if "snd (union_uf d s i j) = s\<lparr>parent := ps\<rparr>"
    using that uf_inv_compressed [OF inv c] len same by simp
  from o show ?thesis
  proof (elim disjE exE conjE)
    fix e assume "union_uf d s i j = (Inl e, s\<lparr>parent := ps\<rparr>)"
    then show ?thesis using plain by simp
  next
    assume "union_uf d s i j = (Inr False, s\<lparr>parent := ps\<rparr>)"
    then show ?thesis using plain by simp
  next
    fix ki kj ri rj
    assume ri: "is_rep (parent s) ki ri" and rj: "is_rep (parent s) kj rj" and ne: "ri \<noteq> rj"
      and u: "union_uf d s i j = (Inr True, linked s ps ri rj)"
    have "length (parent (linked s ps ri rj)) = length (parent s)" using len by (simp add: linked_def)
    then show ?thesis
      using u uf_inv_linked [OF inv c ri rj ne] charge_sum_linked [OF inv c ri rj ne] by simp
  qed
qed

lemma unions_keeps:
  assumes "uf_inv s"
  shows "uf_inv (unions s ops) \<and>
         length (parent (unions s ops)) = length (parent s) \<and>
         charge_sum (z2_charge (unions s ops)) (parent (unions s ops)) mod 2
           = charge_sum (z2_charge s) (parent s) mod 2 \<and>
         charge_sum (z4_charge (unions s ops)) (parent (unions s ops)) mod 4
           = charge_sum (z4_charge s) (parent s) mod 4"
  using assms
proof (induction ops arbitrary: s)
  case Nil
  then show ?case by simp
next
  case (Cons op ops)
  obtain d i j where op: "op = (d, i, j)" by (cases op)
  let ?s1 = "snd (union_uf d s i j)"
  have k: "uf_inv ?s1" "length (parent ?s1) = length (parent s)"
      "charge_sum (z2_charge ?s1) (parent ?s1) mod 2 = charge_sum (z2_charge s) (parent s) mod 2"
      "charge_sum (z4_charge ?s1) (parent ?s1) mod 4 = charge_sum (z4_charge s) (parent s) mod 4"
    using union_uf_keeps [OF Cons.prems, of d i j] by auto
  show ?case using Cons.IH [OF k(1)] k(2,3,4) op by simp
qed







text \<open>
  Claim C1 (charge conservation).  Start from any state of singleton nodes and make any
  sequence of \<open>union\<close> calls, with any integer arguments and any number of stack frames
  left at each call, the calls that raise \<open>IndexError\<close> or \<open>RecursionError\<close> included.
  In the state reached the charge-A values of the current representatives add up,
  modulo 2, to the sum of the charge-A values of the original singletons, and the
  charge-B values add up, modulo 4, to the sum of the original charge-B values.
\<close>

theorem charge_conservation:
  assumes "singletons s0"
  shows "charge_sum (z2_charge (unions s0 ops)) (parent (unions s0 ops)) mod 2 = sum_list (z2_charge s0) mod 2 \<and>
         charge_sum (z4_charge (unions s0 ops)) (parent (unions s0 ops)) mod 4 = sum_list (z4_charge s0) mod 4"
proof -
  have l: "length (z2_charge s0) = length (parent s0)" "length (z4_charge s0) = length (parent s0)"
    using assms by (auto simp: singletons_def)
  show ?thesis
    using unions_keeps [OF singletons_inv [OF assms], of ops]
      singletons_charge_sum [OF assms l(1)] singletons_charge_sum [OF assms l(2)]
    by simp
qed



text \<open>
  An instance of C1: three singletons built by \<open>__init__(1)\<close> and two \<open>add_node\<close> calls,
  then five \<open>union\<close> calls: two merges, one call with a negative index, one with an
  index out of range, and one that meets the recursion limit.
\<close>

theorem charge_conservation_witness:
  "singletons (add_node (add_node (uf_init 1) 1 3) 1 2) \<and>
   unions (add_node (add_node (uf_init 1) 1 3) 1 2) [(9, 1, 2), (9, 0, 1), (9, - 1, 0), (9, 7, 0), (1, 2, 0)] =
     \<lparr>parent = [0, 0, 0], z2_charge = [0, 0, 1], z4_charge = [1, 1, 2]\<rparr> \<and>
   charge_sum [0, 0, 1] [0, 0, 0] mod 2 = 0 \<and> sum_list [0, 1, 1 :: int] mod 2 = 0 \<and>
   charge_sum [1, 1, 2] [0, 0, 0] mod 4 = 1 \<and> sum_list [0, 3, 2 :: int] mod 4 = 1"
proof -
  have h: "singletons (add_node (add_node (uf_init 1) 1 3) 1 2)"
    by (simp add: singletons_def add_node_def uf_init_def)
  have r: "unions (add_node (add_node (uf_init 1) 1 3) 1 2) [(9, 1, 2), (9, 0, 1), (9, - 1, 0), (9, 7, 0), (1, 2, 0)] =
     \<lparr>parent = [0, 0, 0], z2_charge = [0, 0, 1], z4_charge = [1, 1, 2]\<rparr>"
    by code_simp
  have z: "z2_charge (add_node (add_node (uf_init 1) 1 3) 1 2) = [0, 1, 1]"
    "z4_charge (add_node (add_node (uf_init 1) 1 3) 1 2) = [0, 3, 2]"
    by (simp_all add: add_node_def uf_init_def)
  show ?thesis
    using h charge_conservation [OF h, of "[(9, 1, 2), (9, 0, 1), (9, - 1, 0), (9, 7, 0), (1, 2, 0)]"]
    unfolding r z by simp
qed





text \<open>
  The recursion limit in the small: three \<open>union\<close> calls of roots build the chain
  0, 1, 2, 3, on which \<open>find(0)\<close> needs four frames.  With three frames left it raises
  \<open>RecursionError\<close>, so does \<open>union(0, 3)\<close>, and the arrays stay as they are; with four
  it returns 3 and compresses the walk.
\<close>

lemma recursion_limit_example:
  "unions (uf_init 4) [(9, 1, 0), (9, 2, 1), (9, 3, 2)] =
     \<lparr>parent = [1, 2, 3, 3], z2_charge = [0, 0, 0, 0], z4_charge = [0, 0, 0, 0]\<rparr> \<and>
   find_uf 3 \<lparr>parent = [1, 2, 3, 3], z2_charge = [0, 0, 0, 0], z4_charge = [0, 0, 0, 0]\<rparr> 0 =
     Inl RecursionError \<and>
   union_uf 3 \<lparr>parent = [1, 2, 3, 3], z2_charge = [0, 0, 0, 0], z4_charge = [0, 0, 0, 0]\<rparr> 0 3 =
     (Inl RecursionError, \<lparr>parent = [1, 2, 3, 3], z2_charge = [0, 0, 0, 0], z4_charge = [0, 0, 0, 0]\<rparr>) \<and>
   find_uf 4 \<lparr>parent = [1, 2, 3, 3], z2_charge = [0, 0, 0, 0], z4_charge = [0, 0, 0, 0]\<rparr> 0 =
     Inr (3, \<lparr>parent = [3, 3, 3, 3], z2_charge = [0, 0, 0, 0], z4_charge = [0, 0, 0, 0]\<rparr>)"
  by code_simp

end
